theory Spec2Isabelle
  imports Main "HOL-Library.Word"
begin

unbundle bit_operations_syntax

section \<open>Data model\<close>

text \<open>
  Go's \<open>byte\<close> is an 8-bit word, \<open>int64\<close> (and \<open>int\<close> on a 64-bit platform) a 64-bit
  word read as two's complement, \<open>rune\<close> a 32-bit word. Arithmetic on words wraps around as
  Go's does; comparisons of \<open>int64\<close> values are the signed ones (\<open><s\<close>, \<open>\<le>s\<close>).
  Lengths of slices are natural numbers; \<open>int64(len(b))\<close> is \<open>of_nat (length b)\<close>.
\<close>

type_synonym byte = "8 word"
type_synonym int64 = "64 word"
type_synonym rune = "32 word"

text \<open>
  Errors: \<open>fmt.Errorf\<close> values carry their message; \<open>EOF\<close> and \<open>SourceError\<close> are
  what an \<open>io.Reader\<close> may report; \<open>ConfigurationError\<close> is the buffer's refusal of
  a capacity.
\<close>

datatype error = EOF | SourceError nat | ConfigurationError | Errorf string

text \<open>
  The client's \<open>io.Reader\<close>. A call \<open>Read(p)\<close> with \<open>len(p) = n\<close> produces the bytes
  \<open>rd_bytes r n\<close> (stored at the front of \<open>p\<close>; their number is the returned count),
  the error \<open>rd_err r n\<close>, and leaves the reader as \<open>rd_next r n\<close>.
\<close>

codatatype reader =
  Reader (rd_bytes: "nat \<Rightarrow> byte list") (rd_err: "nat \<Rightarrow> error option")
    (rd_next: "nat \<Rightarrow> reader")

text \<open>
  A reader over a byte string, as Go's \<open>bytes.Reader\<close>: \<open>(0, EOF)\<close> once the string is
  used up, otherwise as many bytes as fit, with no error.
\<close>

primcorec bytesReader :: "byte list \<Rightarrow> reader" where
  "bytesReader s =
     Reader (\<lambda>n. take n s) (\<lambda>n. if s = [] then Some EOF else None)
       (\<lambda>n. bytesReader (drop n s))"

subsection \<open>The circular buffer (package circbuf)\<close>

text \<open>
  Modelled from the spec: the package \<open>github.com/freb/circbuf\<close> is imported by the
  source and is not part of it. Section 6 of the specification gives its contract: a fixed
  capacity, a window of the most recently written bytes (oldest to newest, no longer than
  the capacity), and a count of all bytes ever written. \<open>Size\<close> and
  \<open>TotalWritten\<close> are compared with \<open>int64\<close> expressions in \<open>Unread\<close>, so both are
  \<open>int64\<close>. The slice returned by \<open>Bytes\<close> is taken to have its length as capacity.
\<close>

record Buffer =
  buf_size :: int64
  buf_data :: "byte list"
  buf_written :: int64

definition circbuf_NewBuffer :: "int64 \<Rightarrow> error + Buffer" where
  "circbuf_NewBuffer sz =
     (if sz \<le>s 0 then Inl ConfigurationError
      else Inr \<lparr>buf_size = sz, buf_data = [], buf_written = 0\<rparr>)"

definition circbuf_Write :: "Buffer \<Rightarrow> byte list \<Rightarrow> Buffer" where
  "circbuf_Write b bs =
     (let w = buf_data b @ bs
      in b\<lparr>buf_data := drop (length w - nat (sint (buf_size b))) w,
           buf_written := buf_written b + of_nat (length bs)\<rparr>)"

definition circbuf_Bytes :: "Buffer \<Rightarrow> byte list" where
  "circbuf_Bytes b = buf_data b"

definition circbuf_Size :: "Buffer \<Rightarrow> int64" where
  "circbuf_Size b = buf_size b"

definition circbuf_TotalWritten :: "Buffer \<Rightarrow> int64" where
  "circbuf_TotalWritten b = buf_written b"

subsection \<open>Package unicode/utf8\<close>

text \<open>
  \<open>utf8.MaxRune\<close>, \<open>utf8.FullRune\<close> and \<open>utf8.DecodeRune\<close> belong to Go's standard
  library. They are transcribed from its source: the table \<open>first\<close> gives for every lead
  byte the length of its encoding in the low three bits and the index of the accepted range
  of the second byte in the high four.
\<close>

definition MaxRune :: nat where
  "MaxRune = 1114111"

definition RuneError :: rune where
  "RuneError = 0xFFFD"

definition locb :: byte where "locb = 0x80"
definition hicb :: byte where "hicb = 0xBF"

definition first :: "byte \<Rightarrow> byte" where
  "first b =
     (if b < 0x80 then 0xF0
      else if b < 0xC2 then 0xF1
      else if b < 0xE0 then 0x02
      else if b = 0xE0 then 0x13
      else if b < 0xED then 0x03
      else if b = 0xED then 0x23
      else if b < 0xF0 then 0x03
      else if b = 0xF0 then 0x34
      else if b < 0xF4 then 0x04
      else if b = 0xF4 then 0x44
      else 0xF1)"

definition acceptRanges :: "byte \<Rightarrow> byte \<times> byte" where
  "acceptRanges i =
     (if i = 0 then (locb, hicb)
      else if i = 1 then (0xA0, hicb)
      else if i = 2 then (locb, 0x9F)
      else if i = 3 then (0x90, hicb)
      else if i = 4 then (locb, 0x8F)
      else (0, 0))"

definition FullRune :: "byte list \<Rightarrow> bool" where
  "FullRune p =
     (let n = length p in
      if n = 0 then False
      else
        let x = first (p ! 0) in
        if unat (x AND 7) \<le> n then True
        else
          let (lo, hi) = acceptRanges (drop_bit 4 x) in
          if 1 < n \<and> (p ! 1 < lo \<or> hi < p ! 1) then True
          else if 2 < n \<and> (p ! 2 < locb \<or> hicb < p ! 2) then True
          else False)"

definition DecodeRune :: "byte list \<Rightarrow> rune \<times> nat" where
  "DecodeRune p =
     (let n = length p in
      if n < 1 then (RuneError, 0)
      else
        let p0 = p ! 0; x = first p0 in
        if 0xF0 \<le> x then (if x = 0xF1 then RuneError else ucast p0, 1)
        else
          let sz = unat (x AND 7); (lo, hi) = acceptRanges (drop_bit 4 x) in
          if n < sz then (RuneError, 1)
          else
            let b1 = p ! 1 in
            if b1 < lo \<or> hi < b1 then (RuneError, 1)
            else if sz \<le> 2 then
              (push_bit 6 (ucast (p0 AND 0x1F)) OR ucast (b1 AND 0x3F), 2)
            else
              let b2 = p ! 2 in
              if b2 < locb \<or> hicb < b2 then (RuneError, 1)
              else if sz \<le> 3 then
                (push_bit 12 (ucast (p0 AND 0x0F)) OR push_bit 6 (ucast (b1 AND 0x3F))
                   OR ucast (b2 AND 0x3F), 3)
              else
                let b3 = p ! 3 in
                if b3 < locb \<or> hicb < b3 then (RuneError, 1)
                else
                  (push_bit 18 (ucast (p0 AND 0x07)) OR push_bit 12 (ucast (b1 AND 0x3F))
                     OR push_bit 6 (ucast (b2 AND 0x3F)) OR ucast (b3 AND 0x3F), 4))"

subsection \<open>The reader\<close>

text \<open>
  The struct \<open>unreader\<close>. \<open>runeBuf\<close> is a byte slice of the fixed length
  \<open>utf8.MaxRune\<close>: the model keeps its contents as a function of the index and checks
  every index against that length. \<open>runePos\<close> only counts upwards from 0 below that length.
\<close>

record unreader =
  cb :: Buffer
  rd :: reader
  bytesRead :: int64
  cursor :: int64
  runeBuf :: "nat \<Rightarrow> byte"
  runePos :: nat

definition Bytes :: "unreader \<Rightarrow> byte list" where
  "Bytes u = circbuf_Bytes (cb u)"

definition BytesRead :: "unreader \<Rightarrow> int64" where
  "BytesRead u = bytesRead u"

definition Cursor :: "unreader \<Rightarrow> int64" where
  "Cursor u = cursor u"

definition NewUnreader :: "int64 \<Rightarrow> reader \<Rightarrow> error + unreader" where
  "NewUnreader sz r =
     (case circbuf_NewBuffer sz of
        Inl err \<Rightarrow> Inl err
      | Inr b \<Rightarrow>
          Inr \<lparr>cb = b, rd = r, bytesRead = 0, cursor = 0, runeBuf = (\<lambda>_. 0), runePos = 0\<rparr>)"

text \<open>\<open>Unread\<close> returns the error, if any, and the reader afterwards.\<close>

definition Unread :: "unreader \<Rightarrow> int64 \<Rightarrow> error option \<times> unreader" where
  "Unread u c =
     (let newCursor = cursor u - c in
      if circbuf_TotalWritten (cb u) <s bytesRead u - newCursor then
        (Some (Errorf ''cursor < total bytes written''), u)
      else if circbuf_Size (cb u) <s bytesRead u - newCursor then
        (Some (Errorf ''cursor < buffer size''), u)
      else (None, u\<lparr>cursor := newCursor\<rparr>))"

text \<open>
  \<open>Read\<close> takes the length of \<open>p\<close> and returns the bytes stored at the front of \<open>p\<close>
  (their number is the returned \<open>n\<close>), the error, and the reader afterwards. The result
  \<open>None\<close> is a run-time panic: a slice expression out of range. A source that reports
  more bytes than the span holds breaks the contract of \<open>io.Reader\<close>; the span's capacity
  is taken to be its length, so that \<open>p[:n]\<close> panics then.
\<close>

definition Read :: "unreader \<Rightarrow> nat \<Rightarrow> ((byte list \<times> error option) \<times> unreader) option" where
  "Read u lenp =
     (if lenp = 0 then Some (([], None), u)
      else if cursor u = bytesRead u then
        (let bs = rd_bytes (rd u) lenp; err = rd_err (rd u) lenp in
         if lenp < length bs then None
         else
           Some ((bs, err),
             u\<lparr>cb := circbuf_Write (cb u) bs, rd := rd_next (rd u) lenp,
               bytesRead := bytesRead u + of_nat (length bs),
               cursor := cursor u + of_nat (length bs)\<rparr>))
      else
        (let b = circbuf_Bytes (cb u);
             i = of_nat (length b) - (bytesRead u - cursor u) in
         if i <s 0 \<or> of_nat (length b) <s i then None
         else
           let src = drop (nat (sint i)) b; n = min lenp (length src) in
           Some ((take n src, None), u\<lparr>cursor := cursor u + of_nat n\<rparr>)))"

text \<open>
  The loop of \<open>ReadRune\<close>. Each round reads into the one-byte slice
  \<open>runeBuf[runePos : runePos+1]\<close>, so a byte that \<open>Read\<close> delivers lands at index
  \<open>runePos\<close>. The loop returns the error that ended it, if any.
\<close>

definition store :: "(nat \<Rightarrow> byte) \<Rightarrow> nat \<Rightarrow> byte list \<Rightarrow> (nat \<Rightarrow> byte)" where
  "store f i bs = (case bs of [] \<Rightarrow> f | b # _ \<Rightarrow> f(i := b))"

definition slice_to :: "(nat \<Rightarrow> byte) \<Rightarrow> nat \<Rightarrow> byte list" where
  "slice_to f k = map f [0..<k]"

definition Read1 :: "unreader \<Rightarrow> (error option \<times> unreader) option" where
  "Read1 u =
     (case Read u 1 of
        None \<Rightarrow> None
      | Some ((bs, err), u') \<Rightarrow>
          Some (err, u'\<lparr>runeBuf := store (runeBuf u') (runePos u') bs\<rparr>))"

function ReadRune_loop :: "unreader \<Rightarrow> (error option \<times> unreader) option" where
  "ReadRune_loop u =
     (if \<not> FullRune (slice_to (runeBuf u) (runePos u)) \<and> runePos u < MaxRune then
        (case Read1 u of
           None \<Rightarrow> None
         | Some (Some err, u') \<Rightarrow> Some (Some err, u')
         | Some (None, u') \<Rightarrow> ReadRune_loop (u'\<lparr>runePos := runePos u' + 1\<rparr>))
      else Some (None, u))"
  by pat_completeness auto
termination
  by (relation "measure (\<lambda>u. MaxRune - runePos u)")
    (auto simp: Read1_def Read_def Let_def split: option.splits prod.splits if_splits)

declare ReadRune_loop.simps [simp del]

definition ReadRune :: "unreader \<Rightarrow> ((rune \<times> nat \<times> error option) \<times> unreader) option" where
  "ReadRune u =
     (case ReadRune_loop (u\<lparr>runePos := 0\<rparr>) of
        None \<Rightarrow> None
      | Some (Some err, u') \<Rightarrow> Some ((0, 0, Some err), u')
      | Some (None, u') \<Rightarrow>
          if MaxRune < runePos u' + 1 then None
          else
            (case DecodeRune (slice_to (runeBuf u') (runePos u' + 1)) of
               (r, sz) \<Rightarrow> Some ((r, sz, None), u')))"

text \<open>\<open>LastBytes\<close> assigns to no field; \<open>None\<close> is the panic of the slice expression.\<close>

definition LastBytes :: "unreader \<Rightarrow> int64 \<Rightarrow> byte list option" where
  "LastBytes u n =
     (let b = Bytes u;
          l = (of_nat (length b) :: int64);
          offset = bytesRead u - cursor u;
          s = (if 0 <s l - offset - n then l - offset - n else 0);
          e = l - offset
      in if s <s 0 \<or> e <s s \<or> l <s e then None
         else Some (take (nat (sint e) - nat (sint s)) (drop (nat (sint s)) b)))"

text \<open>
  The state at the head of the loop of \<open>ReadRune\<close> after \<open>k\<close> rounds that ended without
  an error, if the loop gets that far: each round is one call of \<open>Read\<close> on a one-byte slice.
\<close>

fun loop_head :: "unreader \<Rightarrow> nat \<Rightarrow> unreader option" where
  "loop_head u 0 = Some u"
| "loop_head u (Suc k) =
     (if \<not> FullRune (slice_to (runeBuf u) (runePos u)) \<and> runePos u < MaxRune then
        (case Read1 u of
           Some (None, u') \<Rightarrow> loop_head (u'\<lparr>runePos := runePos u' + 1\<rparr>) k
         | _ \<Rightarrow> None)
      else None)"

section \<open>Runs and states\<close>

text \<open>
  The invariant of the data model: the buffer holds what its contract says (a positive
  capacity and a window as long as the smaller of capacity and bytes written), and the number
  of bytes waiting for replay, \<open>bytesRead - cursor\<close>, lies between 0 and the length of the
  window.
\<close>

definition buffer_ok :: "Buffer \<Rightarrow> bool" where
  "buffer_ok b \<longleftrightarrow>
     0 <s buf_size b \<and> 0 \<le>s buf_written b \<and>
     int (length (buf_data b)) = min (sint (buf_size b)) (sint (buf_written b))"

definition pending :: "unreader \<Rightarrow> int64" where
  "pending u = bytesRead u - cursor u"

definition wf :: "unreader \<Rightarrow> bool" where
  "wf u \<longleftrightarrow>
     buffer_ok (cb u) \<and> 0 \<le>s pending u \<and> sint (pending u) \<le> int (length (Bytes u))"

text \<open>The calls a client can make, and the states they lead to from a new reader.\<close>

datatype call = CallRead nat | CallUnread int64 | CallReadRune | CallLastBytes int64

definition step :: "unreader \<Rightarrow> call \<Rightarrow> unreader option" where
  "step u c =
     (case c of
        CallRead n \<Rightarrow> map_option snd (Read u n)
      | CallUnread k \<Rightarrow> Some (snd (Unread u k))
      | CallReadRune \<Rightarrow> map_option snd (ReadRune u)
      | CallLastBytes n \<Rightarrow> map_option (\<lambda>_. u) (LastBytes u n))"

inductive reachable :: "unreader \<Rightarrow> bool" where
  fresh: "NewUnreader sz r = Inr u \<Longrightarrow> reachable u"
| call: "reachable u \<Longrightarrow> step u c = Some u' \<Longrightarrow> reachable u'"

text \<open>
  A sequence of \<open>Read\<close> calls with the given span lengths, and the chunks they deliver;
  what the source produces when it is asked with the same spans (a span of length 0 never
  reaches it); and the source keeping to the contract of \<open>io.Reader\<close>, that it produces no
  more than the span holds.
\<close>

fun Reads :: "unreader \<Rightarrow> nat list \<Rightarrow> (byte list list \<times> unreader) option" where
  "Reads u [] = Some ([], u)"
| "Reads u (n # ns) =
     (case Read u n of
        None \<Rightarrow> None
      | Some ((bs, err), u') \<Rightarrow>
          (case Reads u' ns of
             None \<Rightarrow> None
           | Some (outs, u'') \<Rightarrow> Some (bs # outs, u'')))"

fun produced :: "reader \<Rightarrow> nat list \<Rightarrow> byte list" where
  "produced r [] = []"
| "produced r (n # ns) =
     (if n = 0 then produced r ns else rd_bytes r n @ produced (rd_next r n) ns)"

fun obeys :: "reader \<Rightarrow> nat list \<Rightarrow> bool" where
  "obeys r [] = True"
| "obeys r (n # ns) =
     (if n = 0 then obeys r ns else length (rd_bytes r n) \<le> n \<and> obeys (rd_next r n) ns)"

text \<open>
  In the words of the specification: the bytes before the cursor that the buffer still holds
  (its window without the trailing bytes waiting for replay), and the last \<open>m\<close> elements
  of a list.
\<close>

definition before_cursor :: "unreader \<Rightarrow> byte list" where
  "before_cursor u = take (length (Bytes u) - nat (sint (pending u))) (Bytes u)"

definition last_n :: "nat \<Rightarrow> 'a list \<Rightarrow> 'a list" where
  "last_n m xs = drop (length xs - m) xs"

text \<open>
  Example states: a reader of capacity \<open>sz\<close> over a \<open>bytesReader\<close> that has fetched the
  bytes \<open>win\<close> and has \<open>rest\<close> still to come, with its cursor at \<open>cur\<close>.
\<close>

definition example :: "int64 \<Rightarrow> byte list \<Rightarrow> byte list \<Rightarrow> int64 \<Rightarrow> unreader" where
  "example sz win rest cur =
     \<lparr>cb = \<lparr>buf_size = sz, buf_data = win, buf_written = of_nat (length win)\<rparr>,
      rd = bytesReader rest, bytesRead = of_nat (length win), cursor = cur,
      runeBuf = (\<lambda>_. 0), runePos = 0\<rparr>"

section \<open>Evaluation and arithmetic\<close>

lemmas unfold_all =
  NewUnreader_def circbuf_NewBuffer_def ReadRune_def Read1_def Read_def Unread_def
  circbuf_Write_def circbuf_Bytes_def circbuf_Size_def circbuf_TotalWritten_def
  FullRune_def DecodeRune_def first_def acceptRanges_def hicb_def locb_def RuneError_def
  MaxRune_def store_def slice_to_def Let_def LastBytes_def Bytes_def BytesRead_def Cursor_def
  word_sle_eq word_sless_alt example_def

lemma sint_of_nat_small: "n < 2 ^ 63 \<Longrightarrow> sint (of_nat n :: int64) = int n"
  by (simp add: signed_of_nat signed_take_bit_int_eq_self)

lemma sint_diff_exact:
  "- (2 ^ 63) \<le> sint a - sint b \<Longrightarrow> sint a - sint b < 2 ^ 63 \<Longrightarrow>
   sint (a - b :: int64) = sint a - sint b"
  by (simp add: sint_word_diff signed_take_bit_int_eq_self)

lemma sint_add_exact:
  "- (2 ^ 63) \<le> sint a + sint b \<Longrightarrow> sint a + sint b < 2 ^ 63 \<Longrightarrow>
   sint (a + b :: int64) = sint a + sint b"
  by (simp add: sint_word_add signed_take_bit_int_eq_self)

lemma sint_bounds64: "- (2 ^ 63) \<le> sint (a :: int64)" "sint (a :: int64) < 2 ^ 63"
  using sint_ge [of a] sint_lt [of a] by simp_all

lemma buffer_ok_length: "buffer_ok b \<Longrightarrow> length (buf_data b) < 2 ^ 63"
  using sint_bounds64 [of "buf_size b"] by (simp add: buffer_ok_def min_def split: if_splits)

lemma wf_facts:
  assumes "wf u"
  shows "length (Bytes u) < 2 ^ 63" "0 \<le> sint (pending u)"
    "sint (pending u) \<le> int (length (Bytes u))"
  using assms buffer_ok_length [of "cb u"]
  by (simp_all add: wf_def Bytes_def circbuf_Bytes_def word_sle_eq)

lemma NewUnreader_Inr:
  "NewUnreader sz r = Inr u \<Longrightarrow>
   u = \<lparr>cb = \<lparr>buf_size = sz, buf_data = [], buf_written = 0\<rparr>, rd = r, bytesRead = 0,
        cursor = 0, runeBuf = (\<lambda>_. 0), runePos = 0\<rparr> \<and> 0 <s sz"
  by (auto simp: NewUnreader_def circbuf_NewBuffer_def word_sless_alt word_sle_eq
      split: if_splits)

lemma NewUnreader_example: "NewUnreader 4 (bytesReader s) = Inr (example 4 [] s 0)"
  by (simp add: unfold_all)

lemma reachable_new: "reachable (example 4 [] s 0)"
  by (rule reachable.fresh [OF NewUnreader_example])

lemma ReadRune_loop_stop:
  "FullRune (slice_to (runeBuf u) (runePos u)) \<or> \<not> runePos u < MaxRune \<Longrightarrow>
   ReadRune_loop u = Some (None, u)"
  by (subst ReadRune_loop.simps) auto

lemma ReadRune_loop_error:
  "\<not> FullRune (slice_to (runeBuf u) (runePos u)) \<Longrightarrow> runePos u < MaxRune \<Longrightarrow>
   Read1 u = Some (Some e, u') \<Longrightarrow> ReadRune_loop u = Some (Some e, u')"
  by (subst ReadRune_loop.simps) simp

lemma ReadRune_loop_step:
  "\<not> FullRune (slice_to (runeBuf u) (runePos u)) \<Longrightarrow> runePos u < MaxRune \<Longrightarrow>
   Read1 u = Some (None, u') \<Longrightarrow>
   ReadRune_loop u = ReadRune_loop (u'\<lparr>runePos := runePos u' + 1\<rparr>)"
  by (subst ReadRune_loop.simps) simp

lemma ReadRune_loop_panic:
  "\<not> FullRune (slice_to (runeBuf u) (runePos u)) \<Longrightarrow> runePos u < MaxRune \<Longrightarrow>
   Read1 u = None \<Longrightarrow> ReadRune_loop u = None"
  by (subst ReadRune_loop.simps) simp

section \<open>LastBytes\<close>

lemma LastBytes_value:
  assumes wf: "wf u" and n: "0 \<le>s n"
  shows "LastBytes u n = Some (last_n (nat (sint n)) (before_cursor u))"
proof -
  let ?b = "Bytes u"
  let ?l = "of_nat (length ?b) :: int64"
  let ?p = "pending u"
  have len: "length ?b < 2 ^ 63" and p0: "0 \<le> sint ?p" and pl: "sint ?p \<le> int (length ?b)"
    using wf_facts [OF wf] by simp_all
  have n0: "0 \<le> sint n" using n by (simp add: word_sle_eq)
  have sl: "sint ?l = int (length ?b)" using len by (rule sint_of_nat_small)
  have se: "sint (?l - ?p) = int (length ?b) - sint ?p"
    using sl p0 pl len sint_bounds64 [of ?p] by (subst sint_diff_exact) simp_all
  have sn: "sint (?l - ?p - n) = int (length ?b) - sint ?p - sint n"
    using se n0 p0 pl len sint_bounds64 [of n] by (subst sint_diff_exact) simp_all
  show ?thesis
  proof (cases "0 <s ?l - ?p - n")
    case True
    then have pos: "0 < int (length ?b) - sint ?p - sint n"
      using sn by (simp add: word_sless_alt)
    show ?thesis using True pos se sn sl p0 n0 pl
      by (simp add: LastBytes_def Let_def pending_def [symmetric] word_sless_alt last_n_def
          before_cursor_def drop_take nat_diff_distrib min_def)
  next
    case False
    then have npos: "\<not> 0 < int (length ?b) - sint ?p - sint n"
      using sn by (simp add: word_sless_alt)
    show ?thesis using False npos se sn sl p0 n0 pl
      by (simp add: LastBytes_def Let_def pending_def [symmetric] word_sless_alt last_n_def
          before_cursor_def drop_take nat_diff_distrib min_def)
  qed
qed

text \<open>
  In a state that satisfies the invariant of the data model, and for \<open>n \<ge> 0\<close>,
  \<open>LastBytes(n)\<close> returns the last \<open>min(n, len(window) - pending)\<close> bytes of the window
  without its trailing pending bytes: never more than \<open>n\<close>, never more than are held before
  the replay boundary. The call leaves the reader as it was, so a repeated call returns the
  same bytes.
\<close>

theorem LastBytes_spec:
  assumes "wf u" and "0 \<le>s n"
  shows "LastBytes u n = Some (last_n (nat (sint n)) (before_cursor u))
       \<and> length (last_n (nat (sint n)) (before_cursor u))
           = min (nat (sint n)) (length (Bytes u) - nat (sint (pending u)))
       \<and> step u (CallLastBytes n) = Some u"
proof -
  have v: "LastBytes u n = Some (last_n (nat (sint n)) (before_cursor u))"
    using assms by (rule LastBytes_value)
  have "length (before_cursor u) = length (Bytes u) - nat (sint (pending u))"
    by (simp add: before_cursor_def)
  then have "length (last_n (nat (sint n)) (before_cursor u))
      = min (nat (sint n)) (length (Bytes u) - nat (sint (pending u)))"
    unfolding last_n_def by (simp only: length_drop) arith
  then show ?thesis using v by (simp add: step_def)
qed

theorem LastBytes_spec_witness:
  "wf (example 16 [0x68, 0x65, 0x6C, 0x6C, 0x6F] [0x20] 3) \<and> (0 :: int64) \<le>s 2
   \<and> LastBytes (example 16 [0x68, 0x65, 0x6C, 0x6C, 0x6F] [0x20] 3) 2 = Some [0x65, 0x6C]
   \<and> LastBytes (example 16 [0x68, 0x65, 0x6C, 0x6C, 0x6F] [0x20] 3) 7 = Some [0x68, 0x65, 0x6C]"
proof -
  have w: "wf (example 16 [0x68, 0x65, 0x6C, 0x6C, 0x6F] [0x20] 3)"
    by (simp add: wf_def buffer_ok_def pending_def unfold_all)
  have "(0 :: int64) \<le>s 2" and "(0 :: int64) \<le>s 7" by (simp_all add: word_sle_eq)
  then show ?thesis
    using w LastBytes_spec [OF w, of 2] LastBytes_spec [OF w, of 7]
    by (simp add: last_n_def before_cursor_def pending_def Bytes_def circbuf_Bytes_def
        example_def)
qed

section \<open>Unread followed by Read\<close>

lemma Unread_success:
  assumes "Unread u c = (None, u')"
  shows "u' = u\<lparr>cursor := cursor u - c\<rparr>"
    and "sint (pending u + c) \<le> sint (buf_written (cb u))"
    and "sint (pending u + c) \<le> sint (buf_size (cb u))"
proof -
  have eq: "bytesRead u - (cursor u - c) = pending u + c" by (simp add: pending_def)
  show "u' = u\<lparr>cursor := cursor u - c\<rparr>"
    using assms by (simp add: Unread_def Let_def split: if_splits)
  show "sint (pending u + c) \<le> sint (buf_written (cb u))"
    using assms unfolding Unread_def Let_def eq
    by (simp add: circbuf_TotalWritten_def word_sless_alt split: if_splits)
  show "sint (pending u + c) \<le> sint (buf_size (cb u))"
    using assms unfolding Unread_def Let_def eq
    by (simp add: circbuf_Size_def word_sless_alt split: if_splits)
qed

text \<open>
  In a state that satisfies the invariant of the data model, after a successful
  \<open>Unread(c)\<close> with \<open>c \<ge> 1\<close> a \<open>Read\<close> into a span of length \<open>c\<close> returns exactly
  \<open>c\<close> bytes with no error: the \<open>c\<close> bytes of the window that stood before the cursor
  when \<open>Unread\<close> was called, which are also what \<open>LastBytes(c)\<close> showed there. The
  source is not asked: the reader after the \<open>Read\<close> is the reader before the
  \<open>Unread\<close>, source included. The count and the bytes already pending are taken to add up
  within \<open>int64\<close>.
\<close>

theorem Unread_then_Read_replays:
  assumes wf: "wf u" and c1: "1 \<le>s c" and un: "Unread u c = (None, u')"
    and nov: "sint (pending u) + sint c < 2 ^ 63"
  shows "Read u' (nat (sint c)) = Some ((last_n (nat (sint c)) (before_cursor u), None), u)
       \<and> LastBytes u c = Some (last_n (nat (sint c)) (before_cursor u))
       \<and> length (last_n (nat (sint c)) (before_cursor u)) = nat (sint c)
       \<and> rd u' = rd u"
proof -
  let ?b = "Bytes u"
  let ?l = "of_nat (length ?b) :: int64"
  let ?p = "pending u"
  have len: "length ?b < 2 ^ 63" and p0: "0 \<le> sint ?p" and pl: "sint ?p \<le> int (length ?b)"
    using wf_facts [OF wf] by simp_all
  have c0: "1 \<le> sint c" using c1 by (simp add: word_sle_eq)
  have sl: "sint ?l = int (length ?b)" using len by (rule sint_of_nat_small)
  have spc: "sint (?p + c) = sint ?p + sint c"
    using p0 c0 nov by (subst sint_add_exact) simp_all
  have lmin: "int (length ?b) = min (sint (buf_size (cb u))) (sint (buf_written (cb u)))"
    using wf by (simp add: wf_def buffer_ok_def Bytes_def circbuf_Bytes_def)
  have pcl: "sint ?p + sint c \<le> int (length ?b)"
    using Unread_success(2,3) [OF un] spc lmin by simp
  have u': "u' = u\<lparr>cursor := cursor u - c\<rparr>" by (rule Unread_success(1) [OF un])
  have pend': "bytesRead u' - cursor u' = ?p + c" by (simp add: u' pending_def)
  have ne: "cursor u' \<noteq> bytesRead u'"
  proof
    assume "cursor u' = bytesRead u'"
    then have "?p + c = 0" using pend' by simp
    then have "sint (?p + c) = 0" by simp
    then show False using spc p0 c0 by simp
  qed
  have si: "sint (?l - (?p + c)) = int (length ?b) - (sint ?p + sint c)"
    using sl spc p0 c0 pcl len by (subst sint_diff_exact) simp_all
  have b': "circbuf_Bytes (cb u') = ?b" by (simp add: u' Bytes_def)
  have cc: "of_nat (nat (sint c)) = c" using c0 by simp
  have restore: "u'\<lparr>cursor := cursor u' + c\<rparr> = u" by (simp add: u')
  have lb: "LastBytes u c = Some (last_n (nat (sint c)) (before_cursor u))"
    using LastBytes_value [OF wf, of c] c0 by (simp add: word_sle_eq)
  have val: "take (nat (sint c)) (drop (nat (int (length ?b) - (sint ?p + sint c))) ?b)
      = last_n (nat (sint c)) (before_cursor u)"
    using p0 c0 pcl
    by (simp add: last_n_def before_cursor_def drop_take nat_diff_distrib min_def
        nat_add_distrib)
  have rd: "Read u' (nat (sint c)) = Some ((last_n (nat (sint c)) (before_cursor u), None), u)"
    using ne c0 si sl pcl p0 val
    by (simp add: Read_def Let_def pend' b' word_sless_alt cc restore min_def nat_diff_distrib
        nat_add_distrib)
  have ln: "length (last_n (nat (sint c)) (before_cursor u)) = nat (sint c)"
    using p0 c0 pcl
    by (simp add: last_n_def before_cursor_def nat_diff_distrib min_def nat_add_distrib)
  show ?thesis using rd lb ln by (simp add: u')
qed

theorem Unread_then_Read_replays_witness:
  "wf (example 16 [0x68, 0x65, 0x6C, 0x6C, 0x6F] [0x20, 0x77] 5) \<and> (1 :: int64) \<le>s 5
   \<and> Unread (example 16 [0x68, 0x65, 0x6C, 0x6C, 0x6F] [0x20, 0x77] 5) 5
       = (None, example 16 [0x68, 0x65, 0x6C, 0x6C, 0x6F] [0x20, 0x77] 0)
   \<and> Read (example 16 [0x68, 0x65, 0x6C, 0x6C, 0x6F] [0x20, 0x77] 0) 5
       = Some (([0x68, 0x65, 0x6C, 0x6C, 0x6F], None),
           example 16 [0x68, 0x65, 0x6C, 0x6C, 0x6F] [0x20, 0x77] 5)"
proof -
  let ?u = "example 16 [0x68, 0x65, 0x6C, 0x6C, 0x6F] [0x20, 0x77] 5"
  let ?u' = "example 16 [0x68, 0x65, 0x6C, 0x6C, 0x6F] [0x20, 0x77] 0"
  have w: "wf ?u" by (simp add: wf_def buffer_ok_def pending_def unfold_all)
  have c: "(1 :: int64) \<le>s 5" by (simp add: word_sle_eq)
  have un: "Unread ?u 5 = (None, ?u')" by (simp add: unfold_all)
  have nov: "sint (pending ?u) + sint (5 :: int64) < 2 ^ 63" by (simp add: pending_def example_def)
  show ?thesis
    using w c un Unread_then_Read_replays [OF w c un nov]
    by (simp add: last_n_def before_cursor_def pending_def Bytes_def circbuf_Bytes_def
        example_def)
qed

section \<open>Reading without unreading\<close>

lemma Reads_fresh:
  "cursor u = bytesRead u \<Longrightarrow> obeys (rd u) ns \<Longrightarrow>
   \<exists>outs u'. Reads u ns = Some (outs, u') \<and> cursor u' = bytesRead u' \<and>
     concat outs = produced (rd u) ns"
proof (induction ns arbitrary: u)
  case Nil
  then show ?case by simp
next
  case (Cons n ns)
  show ?case
  proof (cases "n = 0")
    case True
    then have r: "Read u n = Some (([], None), u)" by (simp add: Read_def)
    from Cons.prems True have "obeys (rd u) ns" by simp
    from Cons.IH [OF Cons.prems(1) this] obtain outs u' where
      "Reads u ns = Some (outs, u')" "cursor u' = bytesRead u'"
      "concat outs = produced (rd u) ns"
      by blast
    then show ?thesis using r True by simp
  next
    case False
    let ?bs = "rd_bytes (rd u) n"
    let ?u1 = "u\<lparr>cb := circbuf_Write (cb u) ?bs, rd := rd_next (rd u) n,
               bytesRead := bytesRead u + of_nat (length ?bs),
               cursor := cursor u + of_nat (length ?bs)\<rparr>"
    from Cons.prems False have le: "length ?bs \<le> n" and ob: "obeys (rd_next (rd u) n) ns"
      by simp_all
    have r: "Read u n = Some ((?bs, rd_err (rd u) n), ?u1)"
      using False le Cons.prems(1) by (simp add: Read_def Let_def)
    have "cursor ?u1 = bytesRead ?u1" using Cons.prems(1) by simp
    moreover have "obeys (rd ?u1) ns" using ob by simp
    ultimately obtain outs u' where
      "Reads ?u1 ns = Some (outs, u')" "cursor u' = bytesRead u'"
      "concat outs = produced (rd ?u1) ns"
      using Cons.IH [of ?u1] by blast
    then show ?thesis using r False by simp
  qed
qed

lemma obeys_take: "obeys r ns \<Longrightarrow> obeys r (take k ns)"
proof (induction ns arbitrary: r k)
  case Nil
  then show ?case by simp
next
  case (Cons n ns)
  then show ?case by (cases k) (auto split: if_splits)
qed

text \<open>
  Claim C6. From a new reader, a sequence of \<open>Read\<close> calls with no \<open>Unread\<close> between them,
  over a source that keeps to the contract of \<open>io.Reader\<close>, returns from every call, and
  after each call (after the first \<open>k\<close> calls, for every \<open>k\<close>) \<open>Cursor()\<close> equals
  \<open>BytesRead()\<close> and the chunks delivered so far, put together, are the bytes the source
  has produced, in order.
\<close>

theorem Reads_deliver_source:
  assumes "NewUnreader sz r = Inr u0" and "obeys r ns"
  shows "\<exists>outs u. Reads u0 (take k ns) = Some (outs, u) \<and> Cursor u = BytesRead u \<and>
           concat outs = produced r (take k ns)"
proof -
  from assms(1) have "cursor u0 = bytesRead u0" and "rd u0 = r"
    by (auto dest: NewUnreader_Inr)
  moreover have "obeys r (take k ns)" using assms(2) by (rule obeys_take)
  ultimately show ?thesis
    using Reads_fresh [of u0 "take k ns"] by (simp add: Cursor_def BytesRead_def)
qed

theorem Reads_deliver_source_witness:
  "NewUnreader 4 (bytesReader [0x68, 0x69, 0x21]) = Inr (example 4 [] [0x68, 0x69, 0x21] 0)
   \<and> obeys (bytesReader [0x68, 0x69, 0x21]) [2, 0, 5, 1]
   \<and> map_option (\<lambda>(outs, u). (outs, Cursor u, BytesRead u))
        (Reads (example 4 [] [0x68, 0x69, 0x21] 0) [2, 0, 5, 1])
       = Some ([[0x68, 0x69], [], [0x21], []], 3, 3)
   \<and> produced (bytesReader [0x68, 0x69, 0x21]) [2, 0, 5, 1] = [0x68, 0x69, 0x21]"
proof -
  have n: "NewUnreader 4 (bytesReader [0x68, 0x69, 0x21]) = Inr (example 4 [] [0x68, 0x69, 0x21] 0)"
    by (rule NewUnreader_example)
  have ob: "obeys (bytesReader [0x68, 0x69, 0x21]) [2, 0, 5, 1]" by simp
  show ?thesis
    using n ob Reads_deliver_source [OF n ob, of 4]
    by (simp add: unfold_all)
qed

section \<open>What is written to the buffer\<close>

lemma Read_written:
  "Read u n = Some (out, u') \<Longrightarrow> buf_written (cb u) = bytesRead u \<Longrightarrow>
   buf_written (cb u') = bytesRead u'"
  by (auto simp: Read_def Let_def circbuf_Write_def split: if_splits)

lemma Read1_written:
  "Read1 u = Some (e, u') \<Longrightarrow> buf_written (cb u) = bytesRead u \<Longrightarrow>
   buf_written (cb u') = bytesRead u'"
  by (auto simp: Read1_def split: option.splits prod.splits dest: Read_written)

lemma ReadRune_loop_written:
  "ReadRune_loop u = Some (e, u') \<Longrightarrow> buf_written (cb u) = bytesRead u \<Longrightarrow>
   buf_written (cb u') = bytesRead u'"
proof (induction u rule: ReadRune_loop.induct)
  case (1 u)
  show ?case
  proof (cases "\<not> FullRune (slice_to (runeBuf u) (runePos u)) \<and> runePos u < MaxRune")
    case False
    then have "u' = u" using "1.prems"(1) ReadRune_loop_stop [of u] by auto
    then show ?thesis using "1.prems"(2) by simp
  next
    case True
    show ?thesis
    proof (cases "Read1 u")
      case None
      then show ?thesis using True "1.prems"(1) ReadRune_loop_panic [of u] by simp
    next
      case (Some res)
      obtain e1 u1 where res: "res = (e1, u1)" by (cases res)
      have r: "Read1 u = Some (e1, u1)" using Some res by simp
      have w1: "buf_written (cb u1) = bytesRead u1"
        using r "1.prems"(2) by (rule Read1_written)
      show ?thesis
      proof (cases e1)
        case (Some err)
        then have "u' = u1"
          using True "1.prems"(1) r ReadRune_loop_error [of u err u1] by simp
        then show ?thesis using w1 by simp
      next
        case None
        let ?u2 = "u1\<lparr>runePos := runePos u1 + 1\<rparr>"
        have r': "Read1 u = Some (None, u1)" using r None by simp
        have l: "ReadRune_loop ?u2 = Some (e, u')"
          using True "1.prems"(1) r' ReadRune_loop_step [of u u1] by simp
        have "buf_written (cb ?u2) = bytesRead ?u2" using w1 by simp
        with "1.IH" [OF True r' refl refl l] show ?thesis .
      qed
    qed
  qed
qed

lemma ReadRune_written:
  "ReadRune u = Some (out, u') \<Longrightarrow> buf_written (cb u) = bytesRead u \<Longrightarrow>
   buf_written (cb u') = bytesRead u'"
  by (auto simp: ReadRune_def split: option.splits prod.splits if_splits
      dest: ReadRune_loop_written)

lemma step_written:
  "step u c = Some u' \<Longrightarrow> buf_written (cb u) = bytesRead u \<Longrightarrow>
   buf_written (cb u') = bytesRead u'"
  by (cases c)
    (auto simp: step_def Unread_def Let_def dest: Read_written ReadRune_written
      split: if_splits)

lemma reachable_written: "reachable u \<Longrightarrow> buf_written (cb u) = bytesRead u"
proof (induction rule: reachable.induct)
  case (fresh sz r u)
  then show ?case by (auto dest: NewUnreader_Inr)
next
  case (call u c u')
  then show ?case by (auto dest: step_written)
qed

text \<open>
  Claim C10. In every state reached from a new reader by calls of \<open>Read\<close>, \<open>Unread\<close>,
  \<open>ReadRune\<close> and \<open>LastBytes\<close>, the buffer's count of bytes written equals \<open>bytesRead\<close>.
  Only a fetch writes to the buffer: \<open>Unread\<close> leaves the buffer as it is, and so does a
  \<open>Read\<close> of a span of length 0 or one served by replay, while a \<open>Read\<close> that fetches
  writes exactly the bytes the source produced.
\<close>

theorem written_eq_bytesRead:
  assumes "reachable u"
  shows "circbuf_TotalWritten (cb u) = BytesRead u
       \<and> cb (snd (Unread u c)) = cb u
       \<and> (\<forall>bs e u'. Read u n = Some ((bs, e), u') \<longrightarrow>
            (if n = 0 \<or> cursor u \<noteq> bytesRead u then cb u' = cb u
             else bs = rd_bytes (rd u) n \<and> cb u' = circbuf_Write (cb u) bs))"
proof -
  have "circbuf_TotalWritten (cb u) = BytesRead u"
    using reachable_written [OF assms] by (simp add: circbuf_TotalWritten_def BytesRead_def)
  moreover have "cb (snd (Unread u c)) = cb u"
    by (simp add: Unread_def Let_def)
  moreover have "\<forall>bs e u'. Read u n = Some ((bs, e), u') \<longrightarrow>
      (if n = 0 \<or> cursor u \<noteq> bytesRead u then cb u' = cb u
       else bs = rd_bytes (rd u) n \<and> cb u' = circbuf_Write (cb u) bs)"
    by (auto simp: Read_def Let_def split: if_splits)
  ultimately show ?thesis by blast
qed

lemma reachable_read_a: "reachable (example 4 [0x61] [] 1)"
proof -
  have "Read (example 4 [] [0x61] 0) 1 = Some (([0x61], None), example 4 [0x61] [] 1)"
    by (simp add: unfold_all)
  then have "step (example 4 [] [0x61] 0) (CallRead 1) = Some (example 4 [0x61] [] 1)"
    by (simp add: step_def)
  with reachable_new show ?thesis by (rule reachable.call)
qed

theorem written_eq_bytesRead_witness:
  "reachable (example 4 [0x61] [] 1)
   \<and> circbuf_TotalWritten (cb (example 4 [0x61] [] 1)) = 1
   \<and> BytesRead (example 4 [0x61] [] 1) = 1"
  using reachable_read_a written_eq_bytesRead [OF reachable_read_a, of 0 0]
  by (simp add: unfold_all)

section \<open>The invariant where Unread checks its count exactly\<close>

text \<open>
  \<open>Unread\<close> changes the cursor or nothing. Where the number of bytes that would be
  pending fits \<open>int64\<close>, it refuses exactly the counts that ask for more than the capacity
  or more than was ever written. A new reader satisfies the invariant of the data model;
  \<open>Unread\<close> with a count that is not negative and does not overflow keeps it, and so
  does a \<open>Read\<close> served by replay, which returns without panic and without error.
\<close>

lemma Unread_changes_cursor_only:
  "(fst (Unread u c) \<noteq> None \<and> snd (Unread u c) = u)
   \<or> (fst (Unread u c) = None \<and> snd (Unread u c) = u\<lparr>cursor := cursor u - c\<rparr>)"
  by (simp add: Unread_def Let_def)

lemma Unread_refuses_iff:
  assumes "- (2 ^ 63) \<le> sint (pending u) + sint c" and "sint (pending u) + sint c < 2 ^ 63"
  shows "fst (Unread u c) \<noteq> None \<longleftrightarrow>
     sint (circbuf_TotalWritten (cb u)) < sint (pending u) + sint c \<or>
     sint (circbuf_Size (cb u)) < sint (pending u) + sint c"
proof -
  have eq: "bytesRead u - (cursor u - c) = pending u + c" by (simp add: pending_def)
  have "sint (pending u + c) = sint (pending u) + sint c"
    using assms by (rule sint_add_exact)
  then show ?thesis
    unfolding Unread_def Let_def eq by (simp add: word_sless_alt)
qed

lemma wf_new: "NewUnreader sz r = Inr u \<Longrightarrow> wf u"
  by (auto dest!: NewUnreader_Inr simp: wf_def buffer_ok_def pending_def Bytes_def
      circbuf_Bytes_def word_sless_alt word_sle_eq)

lemma wf_Unread:
  assumes wf: "wf u" and c0: "0 \<le>s c" and nov: "sint (pending u) + sint c < 2 ^ 63"
  shows "wf (snd (Unread u c))"
proof (cases "fst (Unread u c)")
  case (Some e)
  then have "snd (Unread u c) = u" using Unread_changes_cursor_only [of u c] by auto
  then show ?thesis using wf by simp
next
  case None
  then have un: "Unread u c = (None, snd (Unread u c))" by (simp add: prod_eq_iff)
  let ?u' = "snd (Unread u c)"
  have u': "?u' = u\<lparr>cursor := cursor u - c\<rparr>" by (rule Unread_success(1) [OF un])
  have p0: "0 \<le> sint (pending u)" using wf_facts(2) [OF wf] .
  have c0': "0 \<le> sint c" using c0 by (simp add: word_sle_eq)
  have spc: "sint (pending u + c) = sint (pending u) + sint c"
    using p0 c0' nov by (subst sint_add_exact) simp_all
  have lmin: "int (length (Bytes u)) = min (sint (buf_size (cb u))) (sint (buf_written (cb u)))"
    using wf by (simp add: wf_def buffer_ok_def Bytes_def circbuf_Bytes_def)
  have pcl: "sint (pending u) + sint c \<le> int (length (Bytes u))"
    using Unread_success(2,3) [OF un] spc lmin by simp
  have "pending ?u' = pending u + c" by (simp add: u' pending_def)
  then show ?thesis
    using wf spc pcl p0 c0' unfolding wf_def
    by (simp add: u' Bytes_def word_sle_eq)
qed

lemma take_min_length: "length D = k \<Longrightarrow> take (min n k) D = take n D"
  by (cases "n \<le> k") (simp_all add: min_absorb1 min_absorb2)

lemma Read_replay_safe:
  assumes wf: "wf u" and ne: "cursor u \<noteq> bytesRead u" and n: "0 < n"
  shows "\<exists>bs. Read u n = Some ((bs, None), u\<lparr>cursor := cursor u + of_nat (length bs)\<rparr>)
      \<and> bs = take n (drop (length (Bytes u) - nat (sint (pending u))) (Bytes u))
      \<and> wf (u\<lparr>cursor := cursor u + of_nat (length bs)\<rparr>)"
proof -
  let ?b = "Bytes u"
  let ?l = "of_nat (length ?b) :: int64"
  let ?p = "pending u"
  let ?D = "drop (length ?b - nat (sint ?p)) ?b"
  let ?bs = "take n ?D"
  have len: "length ?b < 2 ^ 63" and p0: "0 \<le> sint ?p" and pl: "sint ?p \<le> int (length ?b)"
    using wf_facts [OF wf] by simp_all
  have sl: "sint ?l = int (length ?b)" using len by (rule sint_of_nat_small)
  have si: "sint (?l - ?p) = int (length ?b) - sint ?p"
    using sl p0 pl len sint_bounds64 [of ?p] by (subst sint_diff_exact) simp_all
  have b': "circbuf_Bytes (cb u) = ?b" by (simp add: Bytes_def)
  have pend: "bytesRead u - cursor u = ?p" by (simp add: pending_def)
  have dr: "drop (nat (int (length ?b) - sint ?p)) ?b = ?D"
    using p0 pl by (simp add: nat_diff_distrib)
  have ld: "length ?D = nat (sint ?p)"
    using p0 pl by simp
  have tk: "take (min n (nat (sint ?p))) ?D = ?bs"
    using ld by (rule take_min_length)
  have lbs: "length ?bs = min n (nat (sint ?p))"
    unfolding length_take ld by (rule min.commute)
  have "Read u n = Some ((take (min n (nat (sint ?p))) ?D, None),
      u\<lparr>cursor := cursor u + of_nat (min n (nat (sint ?p)))\<rparr>)"
    using ne n si sl p0 pl
    by (simp add: Read_def Let_def pend b' word_sless_alt dr)
  then have r: "Read u n = Some ((?bs, None), u\<lparr>cursor := cursor u + of_nat (length ?bs)\<rparr>)"
    unfolding tk lbs .
  define k where "k = length ?bs"
  have m: "int (nat (sint ?p)) = sint ?p" using p0 by simp
  have "k \<le> nat (sint ?p)" unfolding k_def lbs by (rule min.cobounded2)
  then have k2: "int k \<le> sint ?p" using m by linarith
  have "k \<le> length ?b" unfolding k_def by simp
  then have k1: "k < 2 ^ 63" using len by (rule le_less_trans)
  have sk: "sint (of_nat k :: int64) = int k"
    using k1 by (rule sint_of_nat_small)
  have lo: "- (2 ^ 63) \<le> sint ?p - sint (of_nat k :: int64)"
    unfolding sk using k2 by simp
  have hi: "sint ?p - sint (of_nat k :: int64) < 2 ^ 63"
    unfolding sk using sint_bounds64(2) [of ?p] by simp
  have sp: "sint (?p - of_nat k) = sint ?p - int k"
    using sint_diff_exact [OF lo hi] sk by simp
  have pu: "pending (u\<lparr>cursor := cursor u + of_nat k\<rparr>) = ?p - of_nat k"
    by (simp add: pending_def)
  have by': "Bytes (u\<lparr>cursor := cursor u + of_nat k\<rparr>) = ?b" by (simp add: Bytes_def)
  have "buffer_ok (cb u)" using wf by (simp add: wf_def)
  moreover have "0 \<le> sint (?p - of_nat k)" unfolding sp using k2 by simp
  moreover have "sint (?p - of_nat k) \<le> int (length ?b)" unfolding sp using pl by simp
  ultimately have "wf (u\<lparr>cursor := cursor u + of_nat k\<rparr>)"
    unfolding wf_def pu by' by (simp add: word_sle_eq)
  then have "wf (u\<lparr>cursor := cursor u + of_nat (length ?bs)\<rparr>)"
    unfolding k_def .
  then show ?thesis using r by blast
qed

section \<open>Counts that Unread accepts and should refuse\<close>

text \<open>
  \<open>Unread\<close> compares the number of bytes that would be pending with the capacity and with
  the number of bytes written, and nothing else. A negative count makes that number smaller,
  so it passes both comparisons and moves the cursor beyond \<open>bytesRead\<close>. A count close to
  the largest \<open>int64\<close> makes the subtraction \<open>bytesRead - newCursor\<close> wrap around to a
  negative number, which passes both comparisons as well.
\<close>

lemma reachable_unread_a: "reachable (example 4 [0x61] [] 0)"
proof -
  have "step (example 4 [0x61] [] 1) (CallUnread 1) = Some (example 4 [0x61] [] 0)"
    by (simp add: step_def unfold_all)
  with reachable_read_a show ?thesis by (rule reachable.call)
qed

lemma reachable_overflow: "reachable (example 4 [0x61] [] 0x8000000000000001)"
proof -
  have "step (example 4 [0x61] [] 0) (CallUnread 0x7FFFFFFFFFFFFFFF)
      = Some (example 4 [0x61] [] 0x8000000000000001)"
    by (simp add: step_def unfold_all)
  with reachable_unread_a show ?thesis by (rule reachable.call)
qed

text \<open>
  Claim C4 (the code breaks it). On a new reader of capacity 4, \<open>Unread(-1)\<close> returns no
  error and leaves the cursor at 1 with nothing fetched: a reachable state with
  \<open>BytesRead() < Cursor()\<close>.
\<close>

theorem Unread_negative_count_accepted:
  "NewUnreader 4 (bytesReader []) = Inr (example 4 [] [] 0)
   \<and> Unread (example 4 [] [] 0) (- 1) = (None, example 4 [] [] 1)
   \<and> reachable (example 4 [] [] 1)
   \<and> Cursor (example 4 [] [] 1) = 1 \<and> BytesRead (example 4 [] [] 1) = 0
   \<and> BytesRead (example 4 [] [] 1) <s Cursor (example 4 [] [] 1)"
proof -
  have un: "Unread (example 4 [] [] 0) (- 1) = (None, example 4 [] [] 1)"
    by (simp add: unfold_all)
  then have "step (example 4 [] [] 0) (CallUnread (- 1)) = Some (example 4 [] [] 1)"
    by (simp add: step_def)
  with reachable_new have "reachable (example 4 [] [] 1)" by (rule reachable.call)
  then show ?thesis using un NewUnreader_example [of "[]"] by (simp add: unfold_all)
qed

text \<open>
  Claim C2 (the code breaks it). A reader of capacity 4 reads one byte and unreads it, so
  that one byte is pending. \<open>Unread(9223372036854775807)\<close> then asks for a pending span of
  \<open>2 ^ 63\<close> bytes, more than the capacity 4 and more than the one byte ever written, and
  yet returns no error and moves the cursor to \<open>- (2 ^ 63) + 1\<close>.
\<close>

theorem Unread_overflow_accepted:
  "Read (example 4 [] [0x61] 0) 1 = Some (([0x61], None), example 4 [0x61] [] 1)
   \<and> Unread (example 4 [0x61] [] 1) 1 = (None, example 4 [0x61] [] 0)
   \<and> Unread (example 4 [0x61] [] 0) 0x7FFFFFFFFFFFFFFF
       = (None, example 4 [0x61] [] 0x8000000000000001)
   \<and> (0 :: int64) \<le>s 0x7FFFFFFFFFFFFFFF
   \<and> sint (BytesRead (example 4 [0x61] [] 0))
       - (sint (Cursor (example 4 [0x61] [] 0)) - sint (0x7FFFFFFFFFFFFFFF :: int64)) = 2 ^ 63
   \<and> sint (circbuf_Size (cb (example 4 [0x61] [] 0))) = 4
   \<and> sint (circbuf_TotalWritten (cb (example 4 [0x61] [] 0))) = 1
   \<and> sint (Cursor (example 4 [0x61] [] 0x8000000000000001)) = - (2 ^ 63) + 1"
  by (simp add: unfold_all)

text \<open>
  Claim C5 (the code breaks it). The state that the calls of claim C2 lead to is reachable
  and has \<open>Cursor() < BytesRead()\<close>, and \<open>Read\<close> panics in its replay branch: the start
  index \<open>len(b) - (bytesRead - cursor)\<close> wraps around to \<open>- (2 ^ 63) + 1\<close>.
\<close>

theorem Read_replay_panics_after_overflow:
  "reachable (example 4 [0x61] [] 0x8000000000000001)
   \<and> Cursor (example 4 [0x61] [] 0x8000000000000001)
       <s BytesRead (example 4 [0x61] [] 0x8000000000000001)
   \<and> Read (example 4 [0x61] [] 0x8000000000000001) 1 = None
   \<and> sint (of_nat (length (Bytes (example 4 [0x61] [] 0x8000000000000001)))
       - (bytesRead (example 4 [0x61] [] 0x8000000000000001)
           - cursor (example 4 [0x61] [] 0x8000000000000001))) = - (2 ^ 63) + 1"
  using reachable_overflow by (simp add: unfold_all)

text \<open>
  Claim C7 (the code breaks it). In the state that the calls of claim C2 lead to, a reachable
  state, \<open>LastBytes(1)\<close> panics: the end index \<open>len(b) - (bytesRead - cursor)\<close> of its slice
  expression wraps around to \<open>- (2 ^ 63) + 1\<close>.
\<close>

theorem LastBytes_panics_after_overflow:
  "reachable (example 4 [0x61] [] 0x8000000000000001)
   \<and> (0 :: int64) \<le>s 1
   \<and> LastBytes (example 4 [0x61] [] 0x8000000000000001) 1 = None
   \<and> sint (of_nat (length (Bytes (example 4 [0x61] [] 0x8000000000000001)))
       - (bytesRead (example 4 [0x61] [] 0x8000000000000001)
           - cursor (example 4 [0x61] [] 0x8000000000000001))) = - (2 ^ 63) + 1"
  using reachable_overflow by (simp add: unfold_all)

lemma reachable_two_bytes_read: "reachable (example 4 [0x61] [0x62] 1)"
proof -
  have "Read (example 4 [] [0x61, 0x62] 0) 1 = Some (([0x61], None), example 4 [0x61] [0x62] 1)"
    by (simp add: unfold_all)
  then have "step (example 4 [] [0x61, 0x62] 0) (CallRead 1) = Some (example 4 [0x61] [0x62] 1)"
    by (simp add: step_def)
  with reachable_new show ?thesis by (rule reachable.call)
qed

lemma reachable_cursor_ahead: "reachable (example 4 [0x61] [0x62] 2)"
proof -
  have "step (example 4 [0x61] [0x62] 1) (CallUnread (- 1)) = Some (example 4 [0x61] [0x62] 2)"
    by (simp add: step_def unfold_all)
  with reachable_two_bytes_read show ?thesis by (rule reachable.call)
qed

text \<open>
  Claim C3 (the code breaks it). A reader of capacity 4 over the bytes \<open>61 62\<close> reads one
  byte, \<open>61\<close>. \<open>Unread(-1)\<close> then returns no error and puts the cursor at 2, one beyond
  \<open>bytesRead\<close> (the defect of claim C4); the same state is reached with counts that are not
  negative, by \<open>Unread(1)\<close> and two calls of \<open>Unread(9223372036854775807)\<close> (the defect of
  claim C2). In that state \<open>Unread(2)\<close> returns no error, and the \<open>Read\<close> into a span of
  length 2 that follows returns one byte, not two.
\<close>

theorem Unread_then_Read_short_after_bad_count:
  "Read (example 4 [] [0x61, 0x62] 0) 1 = Some (([0x61], None), example 4 [0x61] [0x62] 1)
   \<and> Unread (example 4 [0x61] [0x62] 1) (- 1) = (None, example 4 [0x61] [0x62] 2)
   \<and> reachable (example 4 [0x61] [0x62] 2)
   \<and> Unread (example 4 [0x61] [0x62] 1) 1 = (None, example 4 [0x61] [0x62] 0)
   \<and> Unread (example 4 [0x61] [0x62] 0) 0x7FFFFFFFFFFFFFFF
       = (None, example 4 [0x61] [0x62] 0x8000000000000001)
   \<and> Unread (example 4 [0x61] [0x62] 0x8000000000000001) 0x7FFFFFFFFFFFFFFF
       = (None, example 4 [0x61] [0x62] 2)
   \<and> (1 :: int64) \<le>s 2
   \<and> Unread (example 4 [0x61] [0x62] 2) 2 = (None, example 4 [0x61] [0x62] 0)
   \<and> Read (example 4 [0x61] [0x62] 0) 2 = Some (([0x61], None), example 4 [0x61] [0x62] 1)
   \<and> length [0x61 :: byte] = 1"
  using reachable_cursor_ahead by (simp add: unfold_all)

section \<open>ReadRune\<close>

text \<open>
  Claim C1 (the code breaks it). Over the bytes \<open>E0 41\<close>, an encoding cut short by an
  ASCII letter, \<open>ReadRune\<close> on a new reader returns the code point \<open>U+FFFD\<close> with size 1
  and no error, and has moved the cursor from 0 to 2. \<open>Unread(1)\<close> succeeds and leaves
  the cursor at 1, not at 0.
\<close>

theorem ReadRune_invalid_sequence_overconsumes:
  "NewUnreader 4 (bytesReader [0xE0, 0x41]) = Inr (example 4 [] [0xE0, 0x41] 0)
   \<and> Cursor (example 4 [] [0xE0, 0x41] 0) = 0
   \<and> map_option (\<lambda>(out, u). (out, Cursor u, fst (Unread u 1), Cursor (snd (Unread u 1))))
        (ReadRune (example 4 [] [0xE0, 0x41] 0))
       = Some ((0xFFFD, 1, None), 2, None, 1)"
  by (simp add: unfold_all ReadRune_loop.simps)

lemma first_size_le_4: "unat (first b AND 7) \<le> 4"
  by (simp add: first_def)

lemma FullRune_four: "4 \<le> length p \<Longrightarrow> FullRune p"
  using first_size_le_4 [of "p ! 0"] by (auto simp: FullRune_def Let_def)

lemma Read_runePos: "Read u n = Some (out, u') \<Longrightarrow> runePos u' = runePos u"
  by (auto simp: Read_def Let_def split: if_splits)

lemma Read_runeBuf: "Read u n = Some (out, u') \<Longrightarrow> runeBuf u' = runeBuf u"
  by (auto simp: Read_def Let_def split: if_splits)

lemma Read1_runePos: "Read1 u = Some (e, u') \<Longrightarrow> runePos u' = runePos u"
  by (auto simp: Read1_def split: option.splits prod.splits dest: Read_runePos)

lemma Read1_runeBuf:
  assumes "Read1 u = Some (e, u')" and "i \<noteq> runePos u"
  shows "runeBuf u' i = runeBuf u i"
proof -
  from assms(1) obtain bs u1 where r: "Read u 1 = Some ((bs, e), u1)"
    and u': "u' = u1\<lparr>runeBuf := store (runeBuf u1) (runePos u1) bs\<rparr>"
    by (auto simp: Read1_def split: option.splits prod.splits)
  have "runePos u1 = runePos u" and "runeBuf u1 = runeBuf u"
    using r by (rule Read_runePos, rule Read_runeBuf)
  then show ?thesis using assms(2) by (simp add: u' store_def split: list.splits)
qed

lemma slice_to_cong: "(\<And>i. i < k \<Longrightarrow> f i = g i) \<Longrightarrow> slice_to f k = slice_to g k"
  by (simp add: slice_to_def)

lemma loop_head_runePos: "loop_head u k = Some v \<Longrightarrow> runePos v = runePos u + k"
proof (induction k arbitrary: u)
  case 0
  then show ?case by simp
next
  case (Suc k)
  then show ?case
    by (auto split: if_splits option.splits prod.splits dest!: Read1_runePos)
qed

lemma loop_head_runeBuf:
  "loop_head u k = Some v \<Longrightarrow> i < runePos u \<Longrightarrow> runeBuf v i = runeBuf u i"
proof (induction k arbitrary: u)
  case 0
  then show ?case by simp
next
  case (Suc k)
  from Suc.prems(1) obtain u' where r: "Read1 u = Some (None, u')"
    and l: "loop_head (u'\<lparr>runePos := runePos u' + 1\<rparr>) k = Some v"
    by (auto split: if_splits option.splits prod.splits)
  have rp: "runePos u' = runePos u" using r by (rule Read1_runePos)
  have "runeBuf v i = runeBuf (u'\<lparr>runePos := runePos u' + 1\<rparr>) i"
    using Suc.IH [OF l] Suc.prems(2) rp by simp
  also have "\<dots> = runeBuf u i" using Read1_runeBuf [OF r] Suc.prems(2) by simp
  finally show ?case .
qed

lemma loop_head_not_full:
  "loop_head u k = Some v \<Longrightarrow> runePos u \<le> j \<Longrightarrow> j < runePos u + k \<Longrightarrow>
   \<not> FullRune (slice_to (runeBuf v) j)"
proof (induction k arbitrary: u)
  case 0
  then show ?case by simp
next
  case (Suc k)
  from Suc.prems(1) obtain u' where c: "\<not> FullRune (slice_to (runeBuf u) (runePos u))"
    and r: "Read1 u = Some (None, u')"
    and l: "loop_head (u'\<lparr>runePos := runePos u' + 1\<rparr>) k = Some v"
    by (auto split: if_splits option.splits prod.splits)
  have rp: "runePos u' = runePos u" using r by (rule Read1_runePos)
  show ?case
  proof (cases "j = runePos u")
    case True
    have "slice_to (runeBuf v) j = slice_to (runeBuf u) j"
    proof (rule slice_to_cong)
      fix i assume "i < j"
      then have "runeBuf v i = runeBuf (u'\<lparr>runePos := runePos u' + 1\<rparr>) i"
        using loop_head_runeBuf [OF l] rp True by simp
      also have "\<dots> = runeBuf u i" using Read1_runeBuf [OF r] \<open>i < j\<close> True by simp
      finally show "runeBuf v i = runeBuf u i" .
    qed
    then show ?thesis using c True by simp
  next
    case False
    then show ?thesis using Suc.IH [OF l] Suc.prems(2,3) rp by simp
  qed
qed

lemma loop_head_Suc_end:
  "loop_head u (Suc k) = Some v \<Longrightarrow>
   \<exists>w w'. loop_head u k = Some w \<and> \<not> FullRune (slice_to (runeBuf w) (runePos w)) \<and>
     runePos w < MaxRune \<and> Read1 w = Some (None, w') \<and> v = w'\<lparr>runePos := runePos w' + 1\<rparr>"
proof (induction k arbitrary: u)
  case 0
  then show ?case by (auto split: if_splits option.splits prod.splits)
next
  case (Suc k)
  from Suc.prems obtain u' where c: "\<not> FullRune (slice_to (runeBuf u) (runePos u))"
    "runePos u < MaxRune"
    and r: "Read1 u = Some (None, u')"
    and l: "loop_head (u'\<lparr>runePos := runePos u' + 1\<rparr>) (Suc k) = Some v"
    by (auto split: if_splits option.splits prod.splits)
  from Suc.IH [OF l] show ?case using c r by auto
qed

lemma length_slice_to [simp]: "length (slice_to f k) = k"
  by (simp add: slice_to_def)

lemma loop_head_prefix: "loop_head u (k + m) = Some v \<Longrightarrow> \<exists>w. loop_head u k = Some w"
proof (induction m arbitrary: v)
  case 0
  then show ?case by simp
next
  case (Suc m)
  then have "loop_head u (Suc (k + m)) = Some v" by simp
  from loop_head_Suc_end [OF this] obtain w where "loop_head u (k + m) = Some w" by blast
  then show ?case by (rule Suc.IH)
qed

lemma loop_head_le_4:
  assumes "loop_head u k = Some v" and "runePos u = 0"
  shows "k \<le> 4"
proof (rule ccontr)
  assume "\<not> k \<le> 4"
  then have "k = 5 + (k - 5)" by simp
  then have "loop_head u (5 + (k - 5)) = Some v" using assms(1) by simp
  from loop_head_prefix [OF this] obtain w5 where "loop_head u (Suc 4) = Some w5" by auto
  from loop_head_Suc_end [OF this] obtain w where w: "loop_head u 4 = Some w"
    "\<not> FullRune (slice_to (runeBuf w) (runePos w))"
    by blast
  have "runePos w = 4" using loop_head_runePos [OF w(1)] assms(2) by simp
  then show False using w(2) FullRune_four [of "slice_to (runeBuf w) 4"] by simp
qed

lemma loop_head_ReadRune_loop: "loop_head u k = Some v \<Longrightarrow> ReadRune_loop u = ReadRune_loop v"
proof (induction k arbitrary: u)
  case 0
  then show ?case by simp
next
  case (Suc k)
  from Suc.prems obtain u' where c: "\<not> FullRune (slice_to (runeBuf u) (runePos u))"
    "runePos u < MaxRune"
    and r: "Read1 u = Some (None, u')"
    and l: "loop_head (u'\<lparr>runePos := runePos u' + 1\<rparr>) k = Some v"
    by (auto split: if_splits option.splits prod.splits)
  have "ReadRune_loop u = ReadRune_loop (u'\<lparr>runePos := runePos u' + 1\<rparr>)"
    using c r by (subst ReadRune_loop.simps) simp
  then show ?case using Suc.IH [OF l] by simp
qed

lemma ReadRune_loop_rounds:
  "ReadRune_loop u = Some (err, u') \<Longrightarrow>
   \<exists>k w. loop_head u k = Some w \<and>
     (case err of
        None \<Rightarrow> u' = w \<and> (FullRune (slice_to (runeBuf w) (runePos w)) \<or> \<not> runePos w < MaxRune)
      | Some e \<Rightarrow> \<not> FullRune (slice_to (runeBuf w) (runePos w)) \<and> runePos w < MaxRune \<and>
          Read1 w = Some (Some e, u'))"
proof (induction u rule: ReadRune_loop.induct)
  case (1 u)
  show ?case
  proof (cases "\<not> FullRune (slice_to (runeBuf u) (runePos u)) \<and> runePos u < MaxRune")
    case False
    then have "err = None" "u' = u"
      using "1.prems" by (subst (asm) ReadRune_loop.simps; simp)+
    then have "loop_head u 0 = Some u \<and> (case err of
        None \<Rightarrow> u' = u \<and> (FullRune (slice_to (runeBuf u) (runePos u)) \<or> \<not> runePos u < MaxRune)
      | Some e \<Rightarrow> \<not> FullRune (slice_to (runeBuf u) (runePos u)) \<and> runePos u < MaxRune \<and>
          Read1 u = Some (Some e, u'))"
      using False by auto
    then show ?thesis by blast
  next
    case True
    show ?thesis
    proof (cases "Read1 u")
      case None
      then show ?thesis using True "1.prems" by (subst (asm) ReadRune_loop.simps) simp
    next
      case (Some res)
      obtain e1 u1 where res: "res = (e1, u1)" by (cases res)
      show ?thesis
      proof (cases e1)
        case (Some e)
        then have "err = Some e" "u' = u1"
          using True "1.prems" \<open>Read1 u = Some res\<close> res
          by (subst (asm) ReadRune_loop.simps; simp)+
        then have "loop_head u 0 = Some u \<and> (case err of
            None \<Rightarrow> u' = u \<and> (FullRune (slice_to (runeBuf u) (runePos u)) \<or> \<not> runePos u < MaxRune)
          | Some e \<Rightarrow> \<not> FullRune (slice_to (runeBuf u) (runePos u)) \<and> runePos u < MaxRune \<and>
              Read1 u = Some (Some e, u'))"
          using True \<open>Read1 u = Some res\<close> res Some by auto
        then show ?thesis by blast
      next
        case None
        let ?u2 = "u1\<lparr>runePos := runePos u1 + 1\<rparr>"
        have r: "Read1 u = Some (None, u1)" using \<open>Read1 u = Some res\<close> res None by simp
        have "ReadRune_loop ?u2 = Some (err, u')"
          using True "1.prems" r by (subst (asm) ReadRune_loop.simps) simp
        from "1.IH" [OF True r refl refl this] obtain k w where
          l: "loop_head ?u2 k = Some w" and
          c: "(case err of
            None \<Rightarrow> u' = w \<and> (FullRune (slice_to (runeBuf w) (runePos w)) \<or> \<not> runePos w < MaxRune)
          | Some e \<Rightarrow> \<not> FullRune (slice_to (runeBuf w) (runePos w)) \<and> runePos w < MaxRune \<and>
              Read1 w = Some (Some e, u'))"
          by blast
        have "loop_head u (Suc k) = Some w" using True r l by simp
        then show ?thesis using c by blast
      qed
    qed
  qed
qed

lemma Read_error_from_source:
  "Read u n = Some ((bs, Some e), u') \<Longrightarrow> cursor u = bytesRead u \<and> rd_err (rd u) n = Some e"
  by (auto simp: Read_def Let_def split: if_splits)

lemma Read1_error_from_source:
  "Read1 u = Some (Some e, u') \<Longrightarrow> cursor u = bytesRead u \<and> rd_err (rd u) 1 = Some e"
  by (auto simp: Read1_def split: option.splits prod.splits dest: Read_error_from_source)

lemma MaxRune_gt_4: "4 < MaxRune" by (simp add: MaxRune_def)

text \<open>
  Claim C8. Every round of the loop of \<open>ReadRune\<close> is one \<open>Read\<close> on a one-byte slice.
  The loop starts a round \<open>k\<close> only for \<open>k \<le> 4\<close>, having made \<open>k\<close> reads, none of
  the shorter prefixes of the bytes gathered being a full encoding; with 4 bytes gathered the
  prefix is full, and as soon as the prefix is full the loop ends, so no fifth read is made.
  Whenever the loop returns, it has made at most 4 reads: it ended at a full prefix after
  \<open>m \<le> 4\<close> reads, or on the error of read number \<open>m + 1 \<le> 4\<close>. (The bound written in
  the loop condition is \<open>utf8.MaxRune\<close>, 1114111; the bound 4 comes from \<open>utf8.FullRune\<close>.)
\<close>

theorem ReadRune_at_most_four_reads:
  "(loop_head (u\<lparr>runePos := 0\<rparr>) k = Some v \<longrightarrow>
      k \<le> 4 \<and> runePos v = k \<and> (\<forall>j<k. \<not> FullRune (slice_to (runeBuf v) j)) \<and>
      (k = 4 \<longrightarrow> FullRune (slice_to (runeBuf v) k)) \<and>
      (FullRune (slice_to (runeBuf v) k) \<longrightarrow> ReadRune_loop (u\<lparr>runePos := 0\<rparr>) = Some (None, v)))
   \<and> (ReadRune_loop (u\<lparr>runePos := 0\<rparr>) = Some (err, u') \<longrightarrow>
        (\<exists>m w. m \<le> 4 \<and> loop_head (u\<lparr>runePos := 0\<rparr>) m = Some w \<and>
           (case err of
              None \<Rightarrow> u' = w \<and> FullRune (slice_to (runeBuf w) m)
            | Some e \<Rightarrow> m < 4 \<and> Read1 w = Some (Some e, u'))))"
proof (intro conjI impI)
  let ?u0 = "u\<lparr>runePos := 0\<rparr>"
  assume l: "loop_head ?u0 k = Some v"
  show k4: "k \<le> 4" using loop_head_le_4 [OF l] by simp
  show rp: "runePos v = k" using loop_head_runePos [OF l] by simp
  show "\<forall>j<k. \<not> FullRune (slice_to (runeBuf v) j)"
    using loop_head_not_full [OF l] by simp
  show "FullRune (slice_to (runeBuf v) k)" if "k = 4"
    using that FullRune_four [of "slice_to (runeBuf v) k"] by simp
  show "ReadRune_loop ?u0 = Some (None, v)" if "FullRune (slice_to (runeBuf v) k)"
    using that loop_head_ReadRune_loop [OF l] ReadRune_loop_stop [of v] rp by simp
next
  let ?u0 = "u\<lparr>runePos := 0\<rparr>"
  assume "ReadRune_loop ?u0 = Some (err, u')"
  from ReadRune_loop_rounds [OF this] obtain m w where l: "loop_head ?u0 m = Some w"
    and c: "(case err of
        None \<Rightarrow> u' = w \<and> (FullRune (slice_to (runeBuf w) (runePos w)) \<or> \<not> runePos w < MaxRune)
      | Some e \<Rightarrow> \<not> FullRune (slice_to (runeBuf w) (runePos w)) \<and> runePos w < MaxRune \<and>
          Read1 w = Some (Some e, u'))"
    by blast
  have m4: "m \<le> 4" using loop_head_le_4 [OF l] by simp
  have rp: "runePos w = m" using loop_head_runePos [OF l] by simp
  have "case err of
          None \<Rightarrow> u' = w \<and> FullRune (slice_to (runeBuf w) m)
        | Some e \<Rightarrow> m < 4 \<and> Read1 w = Some (Some e, u')"
  proof (cases err)
    case None
    then show ?thesis using c rp m4 MaxRune_gt_4 by auto
  next
    case (Some e)
    then have nf: "\<not> FullRune (slice_to (runeBuf w) m)" and r: "Read1 w = Some (Some e, u')"
      using c rp by auto
    have "m \<noteq> 4" using nf FullRune_four [of "slice_to (runeBuf w) m"] by auto
    then show ?thesis using Some r m4 by simp
  qed
  then show "\<exists>m w. m \<le> 4 \<and> loop_head ?u0 m = Some w \<and>
      (case err of None \<Rightarrow> u' = w \<and> FullRune (slice_to (runeBuf w) m)
       | Some e \<Rightarrow> m < 4 \<and> Read1 w = Some (Some e, u'))"
    using m4 l by blast
qed

lemma slice_to_0: "slice_to f 0 = []"
  by (simp add: slice_to_def)

lemma slice_to_Suc: "slice_to f (Suc k) = slice_to f k @ [f k]"
  by (simp add: slice_to_def)

theorem ReadRune_at_most_four_reads_witness:
  "loop_head ((example 4 [] [0xC3, 0xA9] 0)\<lparr>runePos := 0\<rparr>) 2
     = Some ((example 4 [0xC3, 0xA9] [] 2)\<lparr>runeBuf := (\<lambda>_. 0)(0 := 0xC3, 1 := 0xA9), runePos := 2\<rparr>)
   \<and> FullRune [0xC3, 0xA9] \<and> \<not> FullRune [0xC3] \<and> \<not> FullRune []
   \<and> ReadRune_loop ((example 4 [] [0xC3, 0xA9] 0)\<lparr>runePos := 0\<rparr>)
     = Some (None, (example 4 [0xC3, 0xA9] [] 2)\<lparr>runeBuf := (\<lambda>_. 0)(0 := 0xC3, 1 := 0xA9), runePos := 2\<rparr>)"
proof -
  let ?u = "example 4 [] [0xC3, 0xA9] 0"
  let ?v = "(example 4 [0xC3, 0xA9] [] 2)\<lparr>runeBuf := (\<lambda>_. 0)(0 := 0xC3, 1 := 0xA9), runePos := 2\<rparr>"
  have l: "loop_head (?u\<lparr>runePos := 0\<rparr>) 2 = Some ?v"
    unfolding numeral_2_eq_2 by (simp add: unfold_all)
  have s: "slice_to (runeBuf ?v) 2 = [0xC3, 0xA9]"
    unfolding numeral_2_eq_2 by (simp add: slice_to_0 slice_to_Suc)
  have f: "FullRune [0xC3, 0xA9 :: byte]" "\<not> FullRune [0xC3 :: byte]" "\<not> FullRune ([] :: byte list)"
    by (simp_all add: unfold_all)
  have "ReadRune_loop (?u\<lparr>runePos := 0\<rparr>) = Some (None, ?v)"
    using l f(1) s ReadRune_at_most_four_reads [of ?u 2 ?v None ?v] by simp
  then show ?thesis using l f by simp
qed

text \<open>
  Claim C9. When a \<open>Read\<close> of the loop returns an error, \<open>ReadRune\<close> returns code point
  0, size 0 and that error, in the state that this \<open>Read\<close> left: no further read is made.
  The error is the one the source reported, unchanged (a replay reports none). Conversely,
  every error that \<open>ReadRune\<close> returns comes with code point 0 and size 0 and is the error
  of a \<open>Read\<close> of its loop.
\<close>

theorem ReadRune_propagates_error:
  "(loop_head (u\<lparr>runePos := 0\<rparr>) k = Some w \<and>
      \<not> FullRune (slice_to (runeBuf w) (runePos w)) \<and> Read1 w = Some (Some e, w') \<longrightarrow>
      ReadRune u = Some ((0, 0, Some e), w') \<and> cursor w = bytesRead w \<and>
      rd_err (rd w) 1 = Some e)
   \<and> (ReadRune u = Some ((r, sz, Some e), u') \<longrightarrow>
        r = 0 \<and> sz = 0 \<and>
        (\<exists>k w. loop_head (u\<lparr>runePos := 0\<rparr>) k = Some w \<and> Read1 w = Some (Some e, u')))"
proof (intro conjI impI)
  let ?u0 = "u\<lparr>runePos := 0\<rparr>"
  assume a: "loop_head ?u0 k = Some w \<and>
      \<not> FullRune (slice_to (runeBuf w) (runePos w)) \<and> Read1 w = Some (Some e, w')"
  then have l: "loop_head ?u0 k = Some w" and nf: "\<not> FullRune (slice_to (runeBuf w) (runePos w))"
    and r: "Read1 w = Some (Some e, w')" by simp_all
  have "runePos w = k" using loop_head_runePos [OF l] by simp
  moreover have "k \<le> 4" using loop_head_le_4 [OF l] by simp
  ultimately have "runePos w < MaxRune" using MaxRune_gt_4 by simp
  with nf have "ReadRune_loop w = Some (Some e, w')" using r by (rule ReadRune_loop_error)
  then have "ReadRune_loop ?u0 = Some (Some e, w')" using loop_head_ReadRune_loop [OF l] by simp
  then show "ReadRune u = Some ((0, 0, Some e), w')" by (simp add: ReadRune_def)
  show "cursor w = bytesRead w" "rd_err (rd w) 1 = Some e"
    using Read1_error_from_source [OF r] by simp_all
next
  assume a: "ReadRune u = Some ((r, sz, Some e), u')"
  then show "r = 0" "sz = 0"
    by (auto simp: ReadRune_def split: option.splits prod.splits if_splits)
  from a have "ReadRune_loop (u\<lparr>runePos := 0\<rparr>) = Some (Some e, u')"
    by (auto simp: ReadRune_def split: option.splits prod.splits if_splits)
  from ReadRune_loop_rounds [OF this]
  show "\<exists>k w. loop_head (u\<lparr>runePos := 0\<rparr>) k = Some w \<and> Read1 w = Some (Some e, u')"
    by auto
qed

theorem ReadRune_propagates_error_witness:
  "loop_head ((example 4 [] [0xC3] 0)\<lparr>runePos := 0\<rparr>) 1
     = Some ((example 4 [0xC3] [] 1)\<lparr>runeBuf := (\<lambda>_. 0)(0 := 0xC3), runePos := 1\<rparr>)
   \<and> \<not> FullRune [0xC3]
   \<and> Read1 ((example 4 [0xC3] [] 1)\<lparr>runeBuf := (\<lambda>_. 0)(0 := 0xC3), runePos := 1\<rparr>)
     = Some (Some EOF, (example 4 [0xC3] [] 1)\<lparr>runeBuf := (\<lambda>_. 0)(0 := 0xC3), runePos := 1\<rparr>)
   \<and> ReadRune (example 4 [] [0xC3] 0)
     = Some ((0, 0, Some EOF), (example 4 [0xC3] [] 1)\<lparr>runeBuf := (\<lambda>_. 0)(0 := 0xC3), runePos := 1\<rparr>)"
proof -
  let ?u = "example 4 [] [0xC3] 0"
  let ?w = "(example 4 [0xC3] [] 1)\<lparr>runeBuf := (\<lambda>_. 0)(0 := 0xC3), runePos := 1\<rparr>"
  have l: "loop_head (?u\<lparr>runePos := 0\<rparr>) 1 = Some ?w"
    by (simp add: unfold_all)
  have s: "slice_to (runeBuf ?w) (runePos ?w) = [0xC3]"
    by (simp add: slice_to_def example_def)
  have f: "\<not> FullRune [0xC3 :: byte]" by (simp add: unfold_all)
  have r: "Read1 ?w = Some (Some EOF, ?w)" by (simp add: unfold_all)
  show ?thesis
    using l f s r ReadRune_propagates_error [of ?u 1 ?w EOF ?w]
    by simp
qed

end
